theory Spec2Isabelle
  imports Main "HOL-Library.Word" "HOL-Library.Sublist" "HOL-Library.Multiset"
begin

section \<open>Path joining\<close>

text \<open>
  \<^verbatim>\<open>std::string::find(char)\<close>: the position of the first occurrence of the character, or
  \<^verbatim>\<open>npos\<close> (here \<open>None\<close>) when there is none.
\<close>

fun find_char :: "string \<Rightarrow> char \<Rightarrow> nat option" where
  "find_char [] c = None"
| "find_char (x # xs) c = (if x = c then Some 0 else map_option Suc (find_char xs c))"

text \<open>
  \<^verbatim>\<open>JoinPath(path1, path2)\<close>. \<^verbatim>\<open>path2.substr(1)\<close> is only evaluated where \<open>path2\<close> starts
  with a slash, so its position argument is in range.
\<close>

definition JoinPath :: "string \<Rightarrow> string \<Rightarrow> string" where
  "JoinPath path1 path2 =
     (if path1 = [] then path2
      else if path1 ! (length path1 - 1) = CHR ''/'' then
        (if find_char path2 CHR ''/'' = Some 0 then path1 @ drop 1 path2
         else path1 @ path2)
      else
        (if find_char path2 CHR ''/'' = Some 0 then path1 @ path2
         else path1 @ ''/'' @ path2))"

text \<open>The predicates the case rules of \<open>JoinPath\<close> are phrased with.\<close>

definition starts_with_slash :: "string \<Rightarrow> bool" where
  "starts_with_slash s = (case s of [] \<Rightarrow> False | c # _ \<Rightarrow> c = CHR ''/'')"

definition ends_with_slash :: "string \<Rightarrow> bool" where
  "ends_with_slash s = (s \<noteq> [] \<and> last s = CHR ''/'')"

text \<open>Two consecutive slashes somewhere in a string.\<close>

fun doubled_slash :: "string \<Rightarrow> bool" where
  "doubled_slash (a # b # cs) = ((a = CHR ''/'' \<and> b = CHR ''/'') \<or> doubled_slash (b # cs))"
| "doubled_slash _ = False"

section \<open>Path normalization\<close>

text \<open>
  \<^verbatim>\<open>path[i]\<close> on a \<^verbatim>\<open>const std::string\<close>: the character at position \<open>i\<close>, and the
  terminating \<^verbatim>\<open>'\0'\<close> at position \<open>size()\<close>. The scanning loop never reads further, since
  it leaves at the first \<^verbatim>\<open>'\0'\<close> it sees.
\<close>

definition NUL :: char where
  "NUL = CHR 0x00"

definition char_at :: "string \<Rightarrow> nat \<Rightarrow> char" where
  "char_at path i = (if i < length path then path ! i else NUL)"

text \<open>\<^verbatim>\<open>string(path, pos, len)\<close>, the substring constructor, for \<open>pos \<le> size()\<close>.\<close>

definition substr :: "string \<Rightarrow> nat \<Rightarrow> nat \<Rightarrow> string" where
  "substr path pos len = take len (drop pos path)"

text \<open>
  What the loop does with a finished segment: \<^verbatim>\<open>..\<close> pops the last retained segment if
  there is one, \<^verbatim>\<open>.\<close> is dropped, anything else is pushed.
\<close>

definition end_segment :: "string \<Rightarrow> string list \<Rightarrow> string list" where
  "end_segment segment segments =
     (if segment = ''..'' then (if segments \<noteq> [] then butlast segments else segments)
      else if segment \<noteq> ''.'' then segments @ [segment]
      else segments)"

text \<open>The largest value of the 32-bit \<^verbatim>\<open>int\<close> that counts the positions.\<close>

definition INT_MAX :: nat where
  "INT_MAX = 2147483647"

text \<open>
  The scanning loop \<^verbatim>\<open>for (int i = 0;; ++i)\<close>, entered at position \<open>i\<close> with the current
  values of \<open>segment_start\<close> and \<open>segments\<close>; it yields the final \<open>segments\<close>. The counter
  \<open>i\<close> is a 32-bit \<^verbatim>\<open>int\<close>: the step \<^verbatim>\<open>++i\<close> at \<open>INT_MAX\<close> is a signed overflow, which
  is undefined behaviour, and the loop then yields \<open>None\<close>. Every position the loop
  reaches is therefore at most \<open>INT_MAX\<close>, and so is \<open>segment_start\<close>, which is \<open>-1\<close> or
  such a position.
\<close>

function NormalizePath_scan ::
  "string \<Rightarrow> nat \<Rightarrow> int \<Rightarrow> string list \<Rightarrow> string list option" where
  "NormalizePath_scan path i segment_start segments =
     (let (segment_start', segments') =
        (if char_at path i \<noteq> CHR ''/'' \<and> char_at path i \<noteq> NUL then
           (if segment_start < 0 then int i else segment_start, segments)
         else if segment_start \<ge> 0 \<and> int i > segment_start then
           (- 1, end_segment (substr path (nat segment_start) (i - nat segment_start)) segments)
         else (segment_start, segments))
      in if char_at path i = NUL then Some segments'
         else if INT_MAX \<le> i then None
         else NormalizePath_scan path (i + 1) segment_start' segments')"
  by pat_completeness auto
termination
  by (relation "measure (\<lambda>(path, i, segment_start, segments). length path - i)")
     (auto simp: char_at_def split: if_splits)

declare NormalizePath_scan.simps [simp del]

text \<open>
  The joining loop over \<open>segments\<close>, with the flag \<open>first\<close> and the stream \<open>result\<close> as
  state; \<open>leading\<close> is the test \<^verbatim>\<open>path[0] == '/'\<close>.
\<close>

fun NormalizePath_join :: "bool \<Rightarrow> string list \<Rightarrow> bool \<Rightarrow> string \<Rightarrow> string" where
  "NormalizePath_join leading [] first result = result"
| "NormalizePath_join leading (s # segments) first result =
     NormalizePath_join leading segments False
       ((if \<not> first \<or> leading then result @ ''/'' else result) @ s)"

text \<open>
  \<^verbatim>\<open>NormalizePath(path)\<close>; \<open>None\<close> where the scanning loop runs into undefined behaviour.
\<close>

definition NormalizePath :: "string \<Rightarrow> string option" where
  "NormalizePath path =
     (if path = [] then Some []
      else
        case NormalizePath_scan path 0 (- 1) [] of
          None \<Rightarrow> None
        | Some segments \<Rightarrow>
            if segments = [] \<and> char_at path 0 = CHR ''/'' then Some ''/''
            else Some (NormalizePath_join (char_at path 0 = CHR ''/'') segments True []))"

subsection \<open>The normal form in the specification's words\<close>

text \<open>
  A segment is a maximal non-empty substring without a slash: split the path at every
  slash and keep the non-empty pieces.
\<close>

fun split_at_slash :: "string \<Rightarrow> string list" where
  "split_at_slash [] = [[]]"
| "split_at_slash (c # cs) =
     (if c = CHR ''/'' then [] # split_at_slash cs
      else (case split_at_slash cs of s # ss \<Rightarrow> (c # s) # ss | [] \<Rightarrow> [[c]]))"

definition path_segments :: "string \<Rightarrow> string list" where
  "path_segments path = filter (\<lambda>s. s \<noteq> []) (split_at_slash path)"

text \<open>The stack discipline on one segment, and on the segments from left to right.\<close>

fun retain :: "string list \<Rightarrow> string \<Rightarrow> string list" where
  "retain stack segment =
     (if segment = ''..'' then (case stack of [] \<Rightarrow> [] | _ \<Rightarrow> butlast stack)
      else if segment = ''.'' then stack
      else stack @ [segment])"

definition retained :: "string list \<Rightarrow> string list" where
  "retained segs = foldl retain [] segs"

text \<open>Segments joined with single slashes.\<close>

fun join_with_slash :: "string list \<Rightarrow> string" where
  "join_with_slash [] = []"
| "join_with_slash [s] = s"
| "join_with_slash (s # t # ss) = s @ ''/'' @ join_with_slash (t # ss)"

definition NormalizePath_spec :: "string \<Rightarrow> string" where
  "NormalizePath_spec path =
     (if path = [] then []
      else if retained (path_segments path) = [] \<and> starts_with_slash path then ''/''
      else (if starts_with_slash path then ''/'' else [])
           @ join_with_slash (retained (path_segments path)))"

text \<open>
  The content of a string as a C string: the characters before its first \<^verbatim>\<open>'\0'\<close>, all of
  it when it has none.
\<close>

definition c_str :: "string \<Rightarrow> string" where
  "c_str path = takeWhile (\<lambda>c. c \<noteq> NUL) path"

text \<open>
  The segment the scanning loop is in the middle of at position \<open>i\<close>: empty while
  \<open>segment_start\<close> is negative. It only serves to state the loop invariant.
\<close>

definition current :: "string \<Rightarrow> nat \<Rightarrow> int \<Rightarrow> string" where
  "current path i ss = (if ss < 0 then [] else substr path (nat ss) (i - nat ss))"

text \<open>
  The segments a normalized path is made of: non-empty, without slash and \<^verbatim>\<open>'\0'\<close>, and
  neither \<^verbatim>\<open>.\<close> nor \<^verbatim>\<open>..\<close>.
\<close>

definition plain :: "string \<Rightarrow> bool" where
  "plain s = (s \<noteq> [] \<and> CHR ''/'' \<notin> set s \<and> NUL \<notin> set s \<and> s \<noteq> ''.'' \<and> s \<noteq> ''..'')"

section \<open>Writing through a caller-supplied primitive\<close>

text \<open>
  The write primitive is a \<^verbatim>\<open>std::function<int(const void *, size_t)>\<close>: a closure with
  hidden state \<open>'s\<close> that is handed the data and a \<^verbatim>\<open>size_t\<close> length (64 bits on the LP64
  platforms the code is built for) and returns an \<^verbatim>\<open>int\<close> (32 bits).
\<close>

type_synonym 's write_func = "'s \<Rightarrow> string \<Rightarrow> 64 word \<Rightarrow> 32 word \<times> 's"

text \<open>
  \<^verbatim>\<open>WriteTo(write_func, data, size)\<close>. The result of the primitive is compared with
  \<^verbatim>\<open>static_cast<int>(size)\<close>, the low 32 bits of \<open>size\<close>. The state after the call is
  returned next to the result, so that the number of invocations is visible.
\<close>

definition WriteTo :: "'s write_func \<Rightarrow> 's \<Rightarrow> string \<Rightarrow> 64 word \<Rightarrow> bool \<times> 's" where
  "WriteTo write_func st data size' =
     (case write_func st data size' of
        (r, st') \<Rightarrow> (if r = - 1 then False else r = (ucast size' :: 32 word), st'))"

text \<open>
  A write primitive for experiments: it counts its invocations and reports to have written
  the given number of bytes.
\<close>

definition reporting :: "32 word \<Rightarrow> nat write_func" where
  "reporting r calls data size' = (r, Suc calls)"

section \<open>Reading through a caller-supplied primitive\<close>

text \<open>
  The value of \<^verbatim>\<open>errno\<close> after a call of the read primitive: the two codes \<open>ReadFrom\<close>
  tests for, and any other value.
\<close>

datatype errno = EINTR | EAGAIN | Errno nat

text \<open>
  The contents of the local array \<^verbatim>\<open>char buf[4096]\<close>, by index. Only positions below 4096
  are ever read.
\<close>

type_synonym buffer = "nat \<Rightarrow> char"

text \<open>
  The read primitive is a \<^verbatim>\<open>std::function<int(void *, int)>\<close>: a closure with hidden state
  \<open>'s\<close>. A call gets the buffer and the requested length; it yields the returned
  \<^verbatim>\<open>int\<close>, the buffer as the call left it, the value of \<^verbatim>\<open>errno\<close> after the call and the
  new state. The lengths are \<^verbatim>\<open>int\<close> in the source and unbounded integers here: the loop
  only subtracts a positive \<open>r\<close> from a larger \<open>max_size\<close>, which cannot overflow.
\<close>

type_synonym 's read_func = "'s \<Rightarrow> buffer \<Rightarrow> int \<Rightarrow> int \<times> buffer \<times> errno \<times> 's"

text \<open>
  How a call of \<open>ReadFrom\<close> ends: it returns true or false, or the primitive returned a
  length below \<open>-1\<close> or above the size of the buffer, with which
  \<^verbatim>\<open>content->append(buf, r)\<close> raises \<^verbatim>\<open>std::length_error\<close> or reads outside the buffer.
\<close>

datatype read_result = Returned bool | Fault

text \<open>
  The length handed to the primitive:
  \<^verbatim>\<open>max_size > 0 ? std::min(max_size, static_cast<int>(sizeof buf)) : sizeof buf\<close>.
\<close>

definition request :: "int \<Rightarrow> int" where
  "request max_size = (if max_size > 0 then min max_size 4096 else 4096)"

text \<open>The characters \<^verbatim>\<open>content->append(buf, r)\<close> appends: the first \<open>r\<close> of the buffer.\<close>

definition appended :: "buffer \<Rightarrow> int \<Rightarrow> string" where
  "appended buf r = map buf [0..<nat r]"

text \<open>
  The loop \<^verbatim>\<open>while (int r = read_func(buf, ...))\<close>, entered in state \<open>st\<close> of the primitive
  with the current buffer, content and \<open>max_size\<close>. It yields how the call ends, the final
  content and the final state of the primitive. The loop need not end (a primitive may
  ask for a retry for ever), in which case the value is \<open>None\<close>.
\<close>

partial_function (option) ReadFrom_loop ::
  "'s read_func \<Rightarrow> 's \<Rightarrow> buffer \<Rightarrow> string \<Rightarrow> int \<Rightarrow> (read_result \<times> string \<times> 's) option" where
  "ReadFrom_loop read_func st buf content max_size =
     (case read_func st buf (request max_size) of
        (r, buf', err, st') \<Rightarrow>
          if r = 0 then Some (Returned True, content, st')
          else if r = - 1 then
            (if err = EINTR \<or> err = EAGAIN then ReadFrom_loop read_func st' buf' content max_size
             else Some (Returned False, content, st'))
          else if r < 0 \<or> r > 4096 then Some (Fault, content, st')
          else if max_size > 0 then
            (if max_size > r
             then ReadFrom_loop read_func st' buf' (content @ appended buf' r) (max_size - r)
             else Some (Returned True, content @ appended buf' r, st'))
          else ReadFrom_loop read_func st' buf' (content @ appended buf' r) max_size)"

declare ReadFrom_loop.simps [code]


subsection \<open>A read primitive for experiments\<close>





section \<open>Walking a directory tree\<close>

text \<open>
  The enumeration primitive \<^verbatim>\<open>_ForEachDirectoryEntry\<close> belongs to the platform layer. It is
  taken as a parameter: for a directory path, the entries it reports to the consumer, in
  its order, each with the flag \<^verbatim>\<open>is_directory\<close>.
\<close>

type_synonym lister = "string \<Rightarrow> (string \<times> bool) list"

text \<open>
  The calls of \<^verbatim>\<open>DirectoryTreeWalker::Consume\<close> that the enumeration of one directory
  makes, one per reported entry and in order, on the vector \<open>files\<close>: a directory is walked
  (that is, its own entries are consumed before the remaining ones), any other path is
  pushed. A cyclic listing makes the walk run for ever, which is the value \<open>None\<close>.
\<close>

partial_function (option) consume_entries ::
  "lister \<Rightarrow> (string \<times> bool) list \<Rightarrow> string list \<Rightarrow> string list option" where
  "consume_entries walk_entries entries files =
     (case entries of
        [] \<Rightarrow> Some files
      | (path, is_directory) # rest \<Rightarrow>
          if is_directory then
            Option.bind (consume_entries walk_entries (walk_entries path) files)
              (\<lambda>files'. consume_entries walk_entries rest files')
          else consume_entries walk_entries rest (files @ [path]))"

declare consume_entries.simps [code]

text \<open>\<^verbatim>\<open>Walk(path)\<close> is \<^verbatim>\<open>_walk_entries(path, this)\<close>.\<close>

definition Walk :: "lister \<Rightarrow> string \<Rightarrow> string list \<Rightarrow> string list option" where
  "Walk walk_entries path files = consume_entries walk_entries (walk_entries path) files"

text \<open>\<^verbatim>\<open>Consume(path, is_directory)\<close>; \<open>consume_entries\<close> is a sequence of these calls.\<close>

definition Consume :: "lister \<Rightarrow> string \<Rightarrow> bool \<Rightarrow> string list \<Rightarrow> string list option" where
  "Consume walk_entries path is_directory files =
     (if is_directory then Walk walk_entries path files else Some (files @ [path]))"

text \<open>
  \<^verbatim>\<open>_GetAllFilesUnder(path, result, walk_entries)\<close>, and \<^verbatim>\<open>GetAllFilesUnder(path, result)\<close>,
  which passes the platform's \<^verbatim>\<open>ForEachDirectoryEntry\<close>.
\<close>

definition GetAllFilesUnder_impl :: "string \<Rightarrow> string list \<Rightarrow> lister \<Rightarrow> string list option" where
  "GetAllFilesUnder_impl path result walk_entries = Walk walk_entries path result"

definition GetAllFilesUnder :: "lister \<Rightarrow> string \<Rightarrow> string list \<Rightarrow> string list option" where
  "GetAllFilesUnder ForEachDirectoryEntry path result =
     GetAllFilesUnder_impl path result ForEachDirectoryEntry"

subsection \<open>Directory trees\<close>

text \<open>
  A finite directory tree, each entry with its full path, the children of a directory in
  enumeration order.
\<close>

datatype node = File string | Directory string "node list"

text \<open>What the enumeration of its parent reports for an entry.\<close>

fun listing :: "node \<Rightarrow> string \<times> bool" where
  "listing (File path) = (path, False)"
| "listing (Directory path children) = (path, True)"

text \<open>
  The enumeration primitive presents a tree: for every directory of the tree it reports
  the direct children, each once, in order and with its flag.
\<close>

fun presents :: "lister \<Rightarrow> node \<Rightarrow> bool" where
  "presents walk_entries (File path) = True"
| "presents walk_entries (Directory path children) =
     (walk_entries path = map listing children \<and> (\<forall>c \<in> set children. presents walk_entries c))"

text \<open>
  The non-directory entries of a tree in depth-first order, its directories, and all its
  entries.
\<close>

fun files_under :: "node \<Rightarrow> string list" where
  "files_under (File path) = [path]"
| "files_under (Directory path children) = concat (map files_under children)"

fun directories_under :: "node \<Rightarrow> string list" where
  "directories_under (File path) = []"
| "directories_under (Directory path children) = path # concat (map directories_under children)"

fun entries_under :: "node \<Rightarrow> string list" where
  "entries_under (File path) = [path]"
| "entries_under (Directory path children) = path # concat (map entries_under children)"

text \<open>
  An enumeration primitive for experiments: directory \<^verbatim>\<open>a\<close> holds \<^verbatim>\<open>a/f1\<close>, the directory
  \<^verbatim>\<open>a/b\<close> and \<^verbatim>\<open>a/f3\<close>, in this order; \<^verbatim>\<open>a/b\<close> holds \<^verbatim>\<open>a/b/f2\<close>.
\<close>

definition example_lister :: lister where
  "example_lister path =
     (if path = ''a'' then [(''a/f1'', False), (''a/b'', True), (''a/f3'', False)]
      else if path = ''a/b'' then [(''a/b/f2'', False)]
      else [])"

section \<open>Results for path joining\<close>

lemma find_char_front: "find_char s CHR ''/'' = Some 0 \<longleftrightarrow> starts_with_slash s"
  by (cases s) (auto simp: starts_with_slash_def)

lemma last_index: "s \<noteq> [] \<Longrightarrow> s ! (length s - 1) = last s"
  by (simp add: last_conv_nth)

lemma doubled_slash_Cons:
  "doubled_slash (x # s) \<longleftrightarrow> (x = CHR ''/'' \<and> starts_with_slash s) \<or> doubled_slash s"
  by (cases s) (auto simp: starts_with_slash_def)

lemma doubled_slash_append:
  "doubled_slash (a @ b) \<longleftrightarrow>
     doubled_slash a \<or> doubled_slash b \<or> (ends_with_slash a \<and> starts_with_slash b)"
proof (induction a)
  case Nil
  then show ?case by (simp add: ends_with_slash_def)
next
  case (Cons x a)
  have "starts_with_slash (a @ b) \<longleftrightarrow> (if a = [] then starts_with_slash b else starts_with_slash a)"
    by (cases a) (simp_all add: starts_with_slash_def)
  then show ?case using Cons
    by (auto simp: doubled_slash_Cons ends_with_slash_def starts_with_slash_def)
qed

lemma JoinPath_unfold:
  "JoinPath a b =
     (if a = [] then b
      else if ends_with_slash a then (if starts_with_slash b then a @ tl b else a @ b)
      else (if starts_with_slash b then a @ b else a @ ''/'' @ b))"
proof (cases "a = []")
  case True
  then show ?thesis by (simp add: JoinPath_def)
next
  case False
  then have "a ! (length a - 1) = last a" by (rule last_index)
  then show ?thesis
    using False by (simp add: JoinPath_def find_char_front ends_with_slash_def drop_Suc)
qed

text \<open>
  Claim C8. \<open>JoinPath\<close> follows its case rules: an empty first path gives the second
  unchanged; where the first ends with a slash and the second starts with one, the second
  loses its leading slash; where only the first ends with a slash, the two are concatenated;
  where the first is non-empty without a final slash and the second has no leading slash, a
  single slash is put between them. The three examples evaluate to \<^verbatim>\<open>foo/bar\<close>.
\<close>

theorem JoinPath_cases:
  "JoinPath [] b = b \<and>
   (ends_with_slash a \<and> starts_with_slash b \<longrightarrow> JoinPath a b = a @ tl b) \<and>
   (ends_with_slash a \<and> \<not> starts_with_slash b \<longrightarrow> JoinPath a b = a @ b) \<and>
   (a \<noteq> [] \<and> \<not> ends_with_slash a \<and> \<not> starts_with_slash b \<longrightarrow>
      JoinPath a b = a @ ''/'' @ b) \<and>
   JoinPath ''foo/'' ''/bar'' = ''foo/bar'' \<and>
   JoinPath ''foo'' ''bar'' = ''foo/bar'' \<and>
   JoinPath ''foo'' ''/bar'' = ''foo/bar''"
  by (simp add: JoinPath_unfold) (simp add: ends_with_slash_def starts_with_slash_def)

text \<open>The case rules of claim C8 at \<^verbatim>\<open>foo/\<close>, \<^verbatim>\<open>foo\<close>, \<^verbatim>\<open>/bar\<close> and \<^verbatim>\<open>bar\<close>.\<close>

theorem JoinPath_cases_witness:
  "ends_with_slash ''foo/'' \<and> starts_with_slash ''/bar'' \<and>
     JoinPath ''foo/'' ''/bar'' = ''foo/'' @ tl ''/bar'' \<and>
   ends_with_slash ''foo/'' \<and> \<not> starts_with_slash ''bar'' \<and>
     JoinPath ''foo/'' ''bar'' = ''foo/'' @ ''bar'' \<and>
   ''foo'' \<noteq> [] \<and> \<not> ends_with_slash ''foo'' \<and> \<not> starts_with_slash ''bar'' \<and>
     JoinPath ''foo'' ''bar'' = ''foo'' @ ''/'' @ ''bar''"
  using JoinPath_cases [of "''/bar''" "''foo/''"] JoinPath_cases [of "''bar''" "''foo/''"]
    JoinPath_cases [of "''bar''" "''foo''"]
  by (simp add: ends_with_slash_def starts_with_slash_def)

text \<open>
  Claim C9 as stated fails: \<^verbatim>\<open>foo\<close> is non-empty and has no final slash, \<^verbatim>\<open>/bar\<close> starts
  with a slash, and the join \<^verbatim>\<open>foo/bar\<close> has no doubled slash.
\<close>

theorem JoinPath_junction_counterexample:
  "''foo'' \<noteq> [] \<and> \<not> ends_with_slash ''foo'' \<and> starts_with_slash ''/bar'' \<and>
   JoinPath ''foo'' ''/bar'' = ''foo/bar'' \<and> \<not> doubled_slash (JoinPath ''foo'' ''/bar'')"
  by (simp add: JoinPath_unfold ends_with_slash_def starts_with_slash_def)

text \<open>
  Claim C9, amended. For a non-empty first path without a final slash and a second path
  with a leading slash, \<open>JoinPath\<close> concatenates the two directly; the junction then has
  exactly one slash (the character before it is not a slash, the character after it is),
  and the result has a doubled slash only if one of the two paths already has one.
\<close>

theorem JoinPath_junction:
  assumes "a \<noteq> []" and "\<not> ends_with_slash a" and "starts_with_slash b"
  shows "JoinPath a b = a @ b \<and>
         JoinPath a b ! (length a - 1) \<noteq> CHR ''/'' \<and>
         JoinPath a b ! length a = CHR ''/'' \<and>
         (doubled_slash (JoinPath a b) \<longleftrightarrow> doubled_slash a \<or> doubled_slash b)"
proof -
  have j: "JoinPath a b = a @ b"
    using assms by (simp add: JoinPath_unfold)
  have "(a @ b) ! (length a - 1) = last a"
    using assms(1) by (simp add: nth_append last_conv_nth)
  moreover have "(a @ b) ! length a = CHR ''/''"
    using assms(3) by (cases b) (simp_all add: starts_with_slash_def)
  ultimately show ?thesis
    using j assms by (simp add: doubled_slash_append) (simp add: ends_with_slash_def)
qed

text \<open>The amended claim C9 at \<^verbatim>\<open>foo\<close> and \<^verbatim>\<open>/bar\<close>.\<close>

theorem JoinPath_junction_witness:
  "''foo'' \<noteq> [] \<and> \<not> ends_with_slash ''foo'' \<and> starts_with_slash ''/bar'' \<and>
   JoinPath ''foo'' ''/bar'' = ''foo'' @ ''/bar'' \<and>
   JoinPath ''foo'' ''/bar'' ! (length ''foo'' - 1) \<noteq> CHR ''/'' \<and>
   JoinPath ''foo'' ''/bar'' ! length ''foo'' = CHR ''/'' \<and>
   (doubled_slash (JoinPath ''foo'' ''/bar'') \<longleftrightarrow> doubled_slash ''foo'' \<or> doubled_slash ''/bar'')"
proof -
  have h: "''foo'' \<noteq> []" "\<not> ends_with_slash ''foo''" "starts_with_slash ''/bar''"
    by (simp_all add: ends_with_slash_def starts_with_slash_def)
  show ?thesis using h JoinPath_junction [OF h] by simp
qed

section \<open>Results for writing\<close>

text \<open>
  \<open>WriteTo\<close> invokes the primitive once, fails when it returns \<open>-1\<close>, and for sizes
  below \<open>2^31\<close> succeeds exactly when the returned length is the size.
\<close>

lemma WriteTo_once: "snd (WriteTo write_func st data size') = snd (write_func st data size')"
  by (simp add: WriteTo_def split: prod.splits)

lemma WriteTo_error:
  "fst (write_func st data size') = - 1 \<Longrightarrow> \<not> fst (WriteTo write_func st data size')"
  by (cases "write_func st data size'") (simp add: WriteTo_def)

lemma sint_ucast_small:
  fixes w :: "64 word"
  assumes "uint w < 2 ^ 31"
  shows "sint (ucast w :: 32 word) = uint w"
proof -
  have "sint (ucast w :: 32 word) = signed_take_bit 31 (uint w)"
    by (simp add: signed_ucast_eq)
  also have "\<dots> = uint w"
  proof (rule signed_take_bit_int_eq_self)
    have "(0::int) \<le> uint w" by simp
    moreover have "- (2 ^ 31) \<le> (0::int)" by simp
    ultimately show "- (2 ^ 31) \<le> uint w" by (rule order_trans[rotated])
    show "uint w < 2 ^ 31" by (rule assms)
  qed
  finally show ?thesis .
qed

lemma WriteTo_exact:
  assumes "size' < 2 ^ 31"
  shows "fst (WriteTo write_func st data size') \<longleftrightarrow>
         sint (fst (write_func st data size')) = uint size'"
proof -
  obtain r st' where w: "write_func st data size' = (r, st')" by (cases "write_func st data size'")
  have u: "uint size' < 2 ^ 31" using assms by (simp add: word_less_def)
  have s: "sint (ucast size' :: 32 word) = uint size'" using u by (rule sint_ucast_small)
  show ?thesis
  proof
    assume "fst (WriteTo write_func st data size')"
    then have "r = ucast size'" using w by (simp add: WriteTo_def split: if_splits)
    then show "sint (fst (write_func st data size')) = uint size'" using s w by simp
  next
    assume a: "sint (fst (write_func st data size')) = uint size'"
    then have "sint r = sint (ucast size' :: 32 word)" using s w by simp
    then have e: "r = ucast size'" by (rule signed_word_eqI)
    have "r \<noteq> - 1"
    proof
      assume "r = - 1"
      then have "sint r = - 1" by simp
      with a w have "uint size' = - 1" by simp
      moreover have "0 \<le> uint size'" by simp
      ultimately have "(0::int) \<le> - 1" by (simp only:)
      then show False by simp
    qed
    then show "fst (WriteTo write_func st data size')" using e w by (simp add: WriteTo_def)
  qed
qed

text \<open>
  Claim C7 says that \<open>WriteTo\<close> returns true only when the returned length equals the
  size. The comparison is made after the size was cast to \<^verbatim>\<open>int\<close>: with a size of
  \<open>2^32 + 5\<close> and a primitive that reports 5 bytes written, \<open>WriteTo\<close> returns true
  although 5 is not the size.
\<close>

theorem WriteTo_truncates_size:
  "WriteTo (reporting 5) calls data 4294967301 = (True, Suc calls) \<and>
   sint (5 :: 32 word) \<noteq> uint (4294967301 :: 64 word)"
  by (simp add: WriteTo_def reporting_def)

section \<open>The scanning loop of path normalization\<close>

lemma split_noslash: "CHR ''/'' \<notin> set cur \<Longrightarrow> split_at_slash cur = [cur]"
  by (induction cur) auto

lemma split_app_slash:
  "CHR ''/'' \<notin> set cur \<Longrightarrow> split_at_slash (cur @ CHR ''/'' # rest) = cur # split_at_slash rest"
  by (induction cur) auto

lemma segs_noslash: "CHR ''/'' \<notin> set cur \<Longrightarrow> path_segments cur = (if cur = [] then [] else [cur])"
  by (simp add: path_segments_def split_noslash)

lemma segs_app_slash:
  "CHR ''/'' \<notin> set cur \<Longrightarrow>
   path_segments (cur @ CHR ''/'' # rest) = (if cur = [] then path_segments rest else cur # path_segments rest)"
  by (simp add: path_segments_def split_app_slash)

lemma end_segment_retain: "end_segment seg segs = retain segs seg"
  by (cases segs) (auto simp: end_segment_def)

lemma current_grow:
  assumes "i < length path" "0 \<le> ss" "nat ss \<le> i"
  shows "current path (Suc i) ss = current path i ss @ [path ! i]"
proof -
  have "Suc i - nat ss = Suc (i - nat ss)" using assms by simp
  moreover have "i - nat ss < length (drop (nat ss) path)" using assms by simp
  moreover have "drop (nat ss) path ! (i - nat ss) = path ! i" using assms by simp
  ultimately show ?thesis using assms
    by (simp add: current_def substr_def take_Suc_conv_app_nth)
qed

lemma current_start: "i < length path \<Longrightarrow> current path (Suc i) (int i) = [path ! i]"
  by (simp add: current_def substr_def take_Suc_conv_app_nth Suc_diff_le)

text \<open>
  The invariant of the scanning loop: from position \<open>i\<close> on, it retains what the stack
  discipline retains of the segment under construction followed by the rest of the content,
  provided the first \<^verbatim>\<open>'\0'\<close> lies at a position of at most \<open>INT_MAX\<close>.
\<close>

lemma scan_sound:
  assumes "i \<le> length path"
    and "ss < 0 \<or> (nat ss < i \<and> CHR ''/'' \<notin> set (current path i ss))"
    and "i + length (c_str (drop i path)) \<le> INT_MAX"
  shows "NormalizePath_scan path i ss segs =
         Some (foldl retain segs (path_segments (current path i ss @ c_str (drop i path))))"
  using assms
proof (induction "length path - i" arbitrary: i ss segs)
  case 0
  then have i: "i = length path" by simp
  then have c: "char_at path i = NUL" by (simp add: char_at_def)
  show ?case
  proof (cases "ss < 0")
    case True
    then show ?thesis using c i
      by (subst NormalizePath_scan.simps) (simp add: current_def c_str_def path_segments_def NUL_def)
  next
    case False
    with 0 have "nat ss < i" "CHR ''/'' \<notin> set (current path i ss)" by auto
    moreover have "current path i ss \<noteq> []" using False \<open>nat ss < i\<close> i
      by (simp add: current_def substr_def)
    moreover have "ss < int i" "0 \<le> ss" using False \<open>nat ss < i\<close> by linarith+
    moreover have "substr path (nat ss) (i - nat ss) = current path i ss"
      using False by (simp add: current_def)
    ultimately show ?thesis using c i
      by (subst NormalizePath_scan.simps)
         (simp add: c_str_def segs_noslash end_segment_retain)
  qed
next
  case (Suc n)
  then have i: "i < length path" by simp
  then have c: "char_at path i = path ! i" by (simp add: char_at_def)
  have d: "drop i path = path ! i # drop (Suc i) path" using i by (simp add: Cons_nth_drop_Suc)
  consider (nul) "path ! i = NUL" | (slash) "path ! i = CHR ''/''" | (other) "path ! i \<noteq> NUL" "path ! i \<noteq> CHR ''/''"
    by blast
  then show ?case
  proof cases
    case nul
    show ?thesis
    proof (cases "ss < 0")
      case True
      then show ?thesis using c nul d
        by (subst NormalizePath_scan.simps) (simp add: current_def c_str_def path_segments_def NUL_def)
    next
      case False
      with Suc.prems have "nat ss < i" "CHR ''/'' \<notin> set (current path i ss)" by auto
      moreover have "current path i ss \<noteq> []" using False \<open>nat ss < i\<close> i
        by (simp add: current_def substr_def)
      moreover have "ss < int i" "0 \<le> ss" using False \<open>nat ss < i\<close> by linarith+
      moreover have "substr path (nat ss) (i - nat ss) = current path i ss"
        using False by (simp add: current_def)
      ultimately show ?thesis using c nul d
        by (subst NormalizePath_scan.simps)
           (simp add: c_str_def segs_noslash end_segment_retain)
    qed
  next
    case slash
    have nn: "CHR ''/'' \<noteq> NUL" by (simp add: NUL_def)
    have cs: "c_str (drop i path) = CHR ''/'' # c_str (drop (Suc i) path)"
      using d slash nn by (simp add: c_str_def)
    have room: "\<not> INT_MAX \<le> i" "Suc i + length (c_str (drop (Suc i) path)) \<le> INT_MAX"
      using Suc.prems(3) cs by simp_all
    have ih: "NormalizePath_scan path (Suc i) (- 1) segs' =
         Some (foldl retain segs' (path_segments (c_str (drop (Suc i) path))))" for segs'
      using Suc.hyps(1)[of "Suc i" "- 1" segs'] Suc.hyps(2) i room by (simp add: current_def)
    show ?thesis
    proof (cases "ss < 0")
      case True
      then have "NormalizePath_scan path (Suc i) ss segs =
         Some (foldl retain segs (path_segments (c_str (drop (Suc i) path))))"
        using Suc.hyps(1)[of "Suc i" ss segs] Suc.hyps(2) i room by (simp add: current_def)
      then show ?thesis using True c slash nn cs room(1)
        by (subst NormalizePath_scan.simps)
           (simp add: current_def segs_app_slash[of "[]", simplified])
    next
      case False
      with Suc.prems have *: "nat ss < i" "CHR ''/'' \<notin> set (current path i ss)" by auto
      moreover have "current path i ss \<noteq> []" using False \<open>nat ss < i\<close> i
        by (simp add: current_def substr_def)
      moreover have "ss < int i" "0 \<le> ss" using False \<open>nat ss < i\<close> by linarith+
      moreover have "substr path (nat ss) (i - nat ss) = current path i ss"
        using False by (simp add: current_def)
      ultimately show ?thesis using c slash nn cs ih room(1)
        by (subst NormalizePath_scan.simps)
           (simp add: segs_app_slash end_segment_retain)
    qed
  next
    case other
    have cs: "c_str (drop i path) = path ! i # c_str (drop (Suc i) path)"
      using d other by (simp add: c_str_def)
    have room: "\<not> INT_MAX \<le> i" "Suc i + length (c_str (drop (Suc i) path)) \<le> INT_MAX"
      using Suc.prems(3) cs by simp_all
    show ?thesis
    proof (cases "ss < 0")
      case True
      have "NormalizePath_scan path (Suc i) (int i) segs =
         Some (foldl retain segs
           (path_segments (current path (Suc i) (int i) @ c_str (drop (Suc i) path))))"
        using Suc.hyps(1)[of "Suc i" "int i" segs] Suc.hyps(2) i other room
        by (simp add: current_start)
      then show ?thesis using True c other cs i room(1)
        apply (subst NormalizePath_scan.simps)
        apply (simp add: current_start)
        apply (simp add: current_def)
        done
    next
      case False
      with Suc.prems have *: "nat ss < i" "CHR ''/'' \<notin> set (current path i ss)" by auto
      have g: "current path (Suc i) ss = current path i ss @ [path ! i]"
        using current_grow[of i path ss] i False * by simp
      have "NormalizePath_scan path (Suc i) ss segs =
         Some (foldl retain segs
           (path_segments (current path (Suc i) ss @ c_str (drop (Suc i) path))))"
        using Suc.hyps(1)[of "Suc i" ss segs] Suc.hyps(2) i other * g room
        by simp
      then show ?thesis using False c other cs g room(1)
        apply (subst NormalizePath_scan.simps)
        apply simp
        done
    qed
  qed
qed

text \<open>
  With more than \<open>INT_MAX\<close> characters before the first \<^verbatim>\<open>'\0'\<close>, the loop reaches
  position \<open>INT_MAX\<close> without having left and increments the counter there.
\<close>

lemma scan_overflow:
  assumes "i \<le> INT_MAX" and "INT_MAX < i + length (c_str (drop i path))"
  shows "NormalizePath_scan path i ss segs = None"
  using assms
proof (induction "length path - i" arbitrary: i ss segs)
  case 0
  then have "drop i path = []" by simp
  then show ?case using 0 by (simp add: c_str_def)
next
  case (Suc n)
  then have i: "i < length path" by simp
  then have c: "char_at path i = path ! i" by (simp add: char_at_def)
  have d: "drop i path = path ! i # drop (Suc i) path" using i by (simp add: Cons_nth_drop_Suc)
  have nn: "path ! i \<noteq> NUL"
  proof
    assume "path ! i = NUL"
    then have "c_str (drop i path) = []" using d by (simp add: c_str_def)
    then show False using Suc.prems by simp
  qed
  then have cs: "c_str (drop i path) = path ! i # c_str (drop (Suc i) path)"
    using d by (simp add: c_str_def)
  show ?case
  proof (cases "INT_MAX \<le> i")
    case True
    then show ?thesis using c nn
      by (subst NormalizePath_scan.simps) (simp add: Let_def split: prod.splits)
  next
    case False
    then have "NormalizePath_scan path (Suc i) ss' segs' = None" for ss' segs'
      using Suc.hyps(1)[of "Suc i" ss' segs'] Suc.hyps(2) Suc.prems cs by simp
    then show ?thesis using False c nn
      by (subst NormalizePath_scan.simps) (simp add: Let_def split: prod.splits)
  qed
qed

section \<open>Results for path normalization\<close>

text \<open>
  The code against the specification. For a path with at most \<open>INT_MAX\<close> characters
  before its first \<^verbatim>\<open>'\0'\<close>, the scanning loop finds the segments of that content and the
  joining loop puts single slashes between the retained ones; for a longer one the counter
  overflows and there is no result.
\<close>

lemma scan_all:
  "length (c_str path) \<le> INT_MAX \<Longrightarrow>
   NormalizePath_scan path 0 (- 1) [] = Some (retained (path_segments (c_str path)))"
  using scan_sound [of 0 path "- 1" "[]"] by (simp add: current_def retained_def)

lemma scan_all_overflow:
  "INT_MAX < length (c_str path) \<Longrightarrow> NormalizePath_scan path 0 (- 1) [] = None"
  using scan_overflow [of 0 path "- 1" "[]"] by simp

lemma join_rest:
  "NormalizePath_join leading segs False result = result @ concat (map (\<lambda>s. CHR ''/'' # s) segs)"
  by (induction segs arbitrary: result) simp_all

lemma join_with_slash_Cons:
  "join_with_slash (s # segs) = s @ concat (map (\<lambda>s. CHR ''/'' # s) segs)"
  by (induction segs arbitrary: s) simp_all

lemma join_all:
  "NormalizePath_join leading segs True [] =
     (if segs = [] then [] else (if leading then ''/'' else []) @ join_with_slash segs)"
  by (cases segs) (simp_all add: join_rest join_with_slash_Cons)

lemma c_str_Nil: "c_str [] = []"
  by (simp add: c_str_def)

lemma NUL_not_slash: "NUL \<noteq> CHR ''/''"
  by (simp add: NUL_def)

lemma c_str_starts: "starts_with_slash (c_str path) \<longleftrightarrow> starts_with_slash path"
  using NUL_not_slash by (cases path) (auto simp: c_str_def starts_with_slash_def)

lemma char_at_0: "path \<noteq> [] \<Longrightarrow> (char_at path 0 = CHR ''/'') = starts_with_slash path"
  by (cases path) (simp_all add: char_at_def starts_with_slash_def)

lemma path_segments_Nil: "path_segments [] = []"
  by (simp add: path_segments_def)

lemma retained_Nil: "retained [] = []"
  by (simp add: retained_def)

lemma NormalizePath_refines:
  assumes "length (c_str path) \<le> INT_MAX"
  shows "NormalizePath path = Some (NormalizePath_spec (c_str path))"
proof (cases "path = []")
  case True
  then show ?thesis by (simp add: NormalizePath_def NormalizePath_spec_def c_str_Nil)
next
  case False
  show ?thesis
  proof (cases "c_str path = []")
    case True
    then have "\<not> starts_with_slash path"
      using c_str_starts [of path] by (simp add: starts_with_slash_def)
    then show ?thesis using True False assms
      by (simp add: NormalizePath_def NormalizePath_spec_def scan_all char_at_0
          path_segments_Nil retained_Nil)
  next
    case nonempty: False
    then show ?thesis using False assms
      by (simp add: NormalizePath_def NormalizePath_spec_def scan_all char_at_0 join_all
          c_str_starts)
  qed
qed

lemma NormalizePath_overflow:
  assumes "INT_MAX < length (c_str path)"
  shows "NormalizePath path = None"
proof -
  have "path \<noteq> []" using assms by (auto simp: c_str_def)
  then show ?thesis using assms by (simp add: NormalizePath_def scan_all_overflow)
qed

lemma NormalizePath_Some:
  "NormalizePath path = Some out \<longleftrightarrow>
     length (c_str path) \<le> INT_MAX \<and> out = NormalizePath_spec (c_str path)"
proof (cases "length (c_str path) \<le> INT_MAX")
  case True
  then show ?thesis by (auto simp: NormalizePath_refines)
next
  case False
  then show ?thesis by (simp add: NormalizePath_overflow)
qed

lemma c_str_id: "NUL \<notin> set path \<Longrightarrow> c_str path = path"
  by (auto simp: c_str_def)

lemma NUL_notin_c_str: "NUL \<notin> set (c_str path)"
  by (auto simp: c_str_def dest: set_takeWhileD)

lemma split_at_slash_ne: "split_at_slash s \<noteq> []"
  by (induction s) (auto split: list.splits)

lemma split_at_slash_parts:
  "s \<in> set (split_at_slash path) \<Longrightarrow> CHR ''/'' \<notin> set s \<and> set s \<subseteq> set path"
proof (induction path arbitrary: s)
  case Nil
  then show ?case by simp
next
  case (Cons c cs)
  show ?case
  proof (cases "c = CHR ''/''")
    case True
    then show ?thesis using Cons by auto
  next
    case False
    obtain t ts where sp: "split_at_slash cs = t # ts"
      using split_at_slash_ne [of cs] by (cases "split_at_slash cs") auto
    then have "s = c # t \<or> s \<in> set ts" using Cons.prems False by simp
    moreover have "CHR ''/'' \<notin> set t \<and> set t \<subseteq> set cs" using Cons.IH [of t] sp by simp
    moreover have "s \<in> set ts \<Longrightarrow> CHR ''/'' \<notin> set s \<and> set s \<subseteq> set cs"
      using Cons.IH [of s] sp by simp
    ultimately show ?thesis using False by auto
  qed
qed

lemma path_segments_parts:
  "s \<in> set (path_segments path) \<Longrightarrow> s \<noteq> [] \<and> CHR ''/'' \<notin> set s \<and> set s \<subseteq> set path"
  using split_at_slash_parts [of s path] by (simp add: path_segments_def)

lemma retain_subset:
  "s \<in> set (foldl retain stack segs) \<Longrightarrow>
   s \<in> set stack \<or> (s \<in> set segs \<and> s \<noteq> ''.'' \<and> s \<noteq> ''..'')"
proof (induction segs arbitrary: stack)
  case Nil
  then show ?case by simp
next
  case (Cons x segs)
  then have "s \<in> set (foldl retain (retain stack x) segs)" by (simp del: retain.simps)
  then have "s \<in> set (retain stack x) \<or> (s \<in> set segs \<and> s \<noteq> ''.'' \<and> s \<noteq> ''..'')"
    by (rule Cons.IH)
  moreover have "s \<in> set (retain stack x) \<Longrightarrow> s \<in> set stack \<or> (s = x \<and> s \<noteq> ''.'' \<and> s \<noteq> ''..'')"
    by (auto split: if_splits list.splits dest: in_set_butlastD)
  ultimately show ?case by auto
qed

lemma retained_plain:
  "s \<in> set (retained (path_segments (c_str path))) \<Longrightarrow> plain s"
proof -
  assume "s \<in> set (retained (path_segments (c_str path)))"
  then have "s \<in> set (path_segments (c_str path))" "s \<noteq> ''.''" "s \<noteq> ''..''"
    using retain_subset [of s "[]"] by (auto simp: retained_def)
  then show "plain s"
    using path_segments_parts [of s "c_str path"] NUL_notin_c_str [of path]
    by (auto simp: plain_def)
qed

lemma retain_plain: "\<forall>s \<in> set segs. plain s \<Longrightarrow> foldl retain stack segs = stack @ segs"
  by (induction segs arbitrary: stack) (auto simp: plain_def)

lemma retained_plain_id: "\<forall>s \<in> set segs. plain s \<Longrightarrow> retained segs = segs"
  by (simp add: retained_def retain_plain)

lemma path_segments_slash: "path_segments (CHR ''/'' # path) = path_segments path"
  by (simp add: path_segments_def)

lemma path_segments_join:
  "\<forall>s \<in> set segs. plain s \<Longrightarrow> path_segments (join_with_slash segs) = segs"
proof (induction segs rule: join_with_slash.induct)
  case 1
  then show ?case by (simp add: path_segments_Nil)
next
  case (2 s)
  then show ?case by (simp add: segs_noslash plain_def)
next
  case (3 s t ss)
  then show ?case by (simp add: segs_app_slash plain_def)
qed


lemma spec_shape:
  "NormalizePath_spec path =
     (if starts_with_slash path then ''/'' else [])
     @ join_with_slash (retained (path_segments path))"
proof (cases "path = []")
  case True
  then show ?thesis
    by (simp add: NormalizePath_spec_def starts_with_slash_def path_segments_Nil retained_Nil)
next
  case False
  show ?thesis
  proof (cases "retained (path_segments path) = []")
    case True
    then show ?thesis using False by (simp add: NormalizePath_spec_def)
  next
    case nonempty: False
    then show ?thesis using False by (simp add: NormalizePath_spec_def)
  qed
qed

lemma NormalizePath_shape:
  "length (c_str path) \<le> INT_MAX \<Longrightarrow>
   NormalizePath path =
     Some ((if starts_with_slash path then ''/'' else [])
       @ join_with_slash (retained (path_segments (c_str path))))"
  by (simp add: NormalizePath_refines spec_shape c_str_starts)

lemma no_slash_not_doubled: "CHR ''/'' \<notin> set s \<Longrightarrow> \<not> doubled_slash s"
  by (induction s) (auto simp: doubled_slash_Cons)

lemma ends_with_slash_mem: "ends_with_slash s \<Longrightarrow> CHR ''/'' \<in> set s"
  unfolding ends_with_slash_def using last_in_set [of s] by auto

lemma starts_with_slash_mem: "starts_with_slash s \<Longrightarrow> CHR ''/'' \<in> set s"
  by (cases s) (simp_all add: starts_with_slash_def)

lemma plain_ends: "plain s \<Longrightarrow> \<not> ends_with_slash s \<and> \<not> starts_with_slash s"
  using ends_with_slash_mem [of s] starts_with_slash_mem [of s] by (auto simp: plain_def)

lemma starts_with_slash_append:
  "starts_with_slash (a @ b) \<longleftrightarrow> (if a = [] then starts_with_slash b else starts_with_slash a)"
  by (cases a) (simp_all add: starts_with_slash_def)

lemma ends_with_slash_append:
  "ends_with_slash (a @ b) \<longleftrightarrow> (if b = [] then ends_with_slash a else ends_with_slash b)"
  by (simp add: ends_with_slash_def)

lemma ends_with_slash_Cons:
  "ends_with_slash (c # s) \<longleftrightarrow> (if s = [] then c = CHR ''/'' else ends_with_slash s)"
  by (simp add: ends_with_slash_def)

lemma join_with_slash_empty: "\<forall>s \<in> set segs. plain s \<Longrightarrow> join_with_slash segs = [] \<longleftrightarrow> segs = []"
  by (induction segs rule: join_with_slash.induct) (simp_all add: plain_def)

lemma join_with_slash_tidy:
  "\<forall>s \<in> set segs. plain s \<Longrightarrow>
   \<not> doubled_slash (join_with_slash segs) \<and> \<not> starts_with_slash (join_with_slash segs)
   \<and> \<not> ends_with_slash (join_with_slash segs) \<and> NUL \<notin> set (join_with_slash segs)"
proof (induction segs rule: join_with_slash.induct)
  case 1
  then show ?case by (simp add: starts_with_slash_def ends_with_slash_def)
next
  case (2 s)
  then show ?case
    using plain_ends [of s] no_slash_not_doubled [of s] by (simp add: plain_def)
next
  case (3 s t ss)
  then have s: "plain s" and ih: "\<not> doubled_slash (join_with_slash (t # ss))"
    "\<not> starts_with_slash (join_with_slash (t # ss))"
    "\<not> ends_with_slash (join_with_slash (t # ss))" "NUL \<notin> set (join_with_slash (t # ss))"
    by simp_all
  have ne: "join_with_slash (t # ss) \<noteq> []"
    using 3 join_with_slash_empty [of "t # ss"] by simp
  have "\<not> doubled_slash s" "s \<noteq> []" "NUL \<notin> set s"
    using s by (simp_all add: no_slash_not_doubled plain_def)
  then show ?case
    using ih ne plain_ends [OF s] NUL_not_slash
    by (simp add: doubled_slash_append starts_with_slash_append ends_with_slash_append
        doubled_slash_Cons ends_with_slash_Cons)
qed


text \<open>The result is never longer than the content it was made from.\<close>

lemma butlast_weight:
  "length (concat (map f (butlast xs))) \<le> length (concat (map f xs))"
  by (cases xs rule: rev_cases) simp_all

lemma retain_weight:
  "length (concat (map (\<lambda>s. CHR ''/'' # s) (foldl retain stack segs)))
     \<le> length (concat (map (\<lambda>s. CHR ''/'' # s) stack))
       + length (concat (map (\<lambda>s. CHR ''/'' # s) segs))"
proof (induction segs arbitrary: stack)
  case Nil
  show ?case by simp
next
  case (Cons x segs)
  have "length (concat (map (\<lambda>s. CHR ''/'' # s) (retain stack x)))
          \<le> length (concat (map (\<lambda>s. CHR ''/'' # s) stack)) + Suc (length x)"
    using butlast_weight [of "\<lambda>s. CHR ''/'' # s" stack]
    by (auto split: list.splits simp del: butlast.simps)
  moreover have "foldl retain stack (x # segs) = foldl retain (retain stack x) segs"
    by (simp del: retain.simps)
  ultimately show ?case
    using Cons.IH [of "retain stack x"] by simp
qed

lemma split_weight:
  "length (concat (map (\<lambda>s. CHR ''/'' # s) (split_at_slash path))) = Suc (length path)"
proof (induction path)
  case Nil
  show ?case by simp
next
  case (Cons c cs)
  obtain t ts where "split_at_slash cs = t # ts"
    using split_at_slash_ne [of cs] by (cases "split_at_slash cs") auto
  then show ?case using Cons by simp
qed

lemma filter_weight:
  "length (concat (map f (filter P xs))) \<le> length (concat (map f xs))"
  by (induction xs) simp_all

lemma segments_weight:
  "length (concat (map (\<lambda>s. CHR ''/'' # s) (path_segments path)))
     \<le> (if starts_with_slash path then length path else Suc (length path))"
proof (cases "starts_with_slash path")
  case True
  then obtain cs where p: "path = CHR ''/'' # cs"
    by (cases path) (simp_all add: starts_with_slash_def)
  have "length (concat (map (\<lambda>s. CHR ''/'' # s) (path_segments cs))) \<le> Suc (length cs)"
    unfolding path_segments_def
    using filter_weight [of "\<lambda>s. CHR ''/'' # s" "\<lambda>s. s \<noteq> []" "split_at_slash cs"]
    by (simp only: split_weight)
  then show ?thesis using True p by (simp add: path_segments_slash)
next
  case False
  have "length (concat (map (\<lambda>s. CHR ''/'' # s) (path_segments path))) \<le> Suc (length path)"
    unfolding path_segments_def
    using filter_weight [of "\<lambda>s. CHR ''/'' # s" "\<lambda>s. s \<noteq> []" "split_at_slash path"]
    by (simp only: split_weight)
  then show ?thesis using False by simp
qed

lemma join_weight:
  "segs \<noteq> [] \<Longrightarrow>
   Suc (length (join_with_slash segs)) = length (concat (map (\<lambda>s. CHR ''/'' # s) segs))"
  by (cases segs) (simp_all add: join_with_slash_Cons)

lemma spec_length: "length (NormalizePath_spec path) \<le> length path"
proof -
  define segs where "segs = retained (path_segments path)"
  have w: "length (concat (map (\<lambda>s. CHR ''/'' # s) segs))
      \<le> (if starts_with_slash path then length path else Suc (length path))"
    unfolding segs_def retained_def
    using retain_weight [of "[]" "path_segments path"] segments_weight [of path] by simp
  show ?thesis
  proof (cases "segs = []")
    case True
    have "join_with_slash (retained (path_segments path)) = []"
      using True by (simp add: segs_def)
    then show ?thesis
      by (cases path) (simp_all add: spec_shape starts_with_slash_def)
  next
    case False
    then show ?thesis
      using w join_weight [OF False]
      by (cases "starts_with_slash path") (simp_all add: spec_shape segs_def [symmetric])
  qed
qed

lemma NormalizePath_returns:
  "length (c_str p) \<le> INT_MAX \<Longrightarrow> \<exists>out. NormalizePath p = Some out"
  by (simp add: NormalizePath_refines)

text \<open>
  Where \<open>NormalizePath\<close> yields a result, the result is in normal form: it has no \<^verbatim>\<open>.\<close> and
  no \<^verbatim>\<open>..\<close> segment and no two consecutive slashes, it begins with a slash exactly when
  the input does, and it ends with a slash only when it is the single slash.
\<close>

lemma NormalizePath_normal_form_bounded:
  assumes "NormalizePath p = Some out"
  shows "''.'' \<notin> set (path_segments out) \<and>
   ''..'' \<notin> set (path_segments out) \<and>
   \<not> doubled_slash out \<and>
   (starts_with_slash out \<longleftrightarrow> starts_with_slash p) \<and>
   (ends_with_slash out \<longrightarrow> out = ''/'')"
proof -
  define segs where "segs = retained (path_segments (c_str p))"
  have pl: "\<forall>s \<in> set segs. plain s"
    unfolding segs_def using retained_plain by blast
  have bound: "length (c_str p) \<le> INT_MAX"
    using assms by (simp add: NormalizePath_Some)
  have shape: "out = (if starts_with_slash p then ''/'' else []) @ join_with_slash segs"
    using assms NormalizePath_shape [OF bound] by (simp add: segs_def)
  note tidy = join_with_slash_tidy [OF pl]
  have "path_segments out = segs"
    using path_segments_join [OF pl] by (simp add: shape path_segments_slash)
  then have dots: "''.'' \<notin> set (path_segments out)" "''..'' \<notin> set (path_segments out)"
    using pl by (auto simp: plain_def)
  have dbl: "\<not> doubled_slash out"
    using tidy by (simp add: shape doubled_slash_Cons)
  have st: "starts_with_slash out \<longleftrightarrow> starts_with_slash p"
    using tidy by (simp add: shape) (simp add: starts_with_slash_def)
  have en: "ends_with_slash out \<longrightarrow> out = ''/''"
  proof (cases "join_with_slash segs = []")
    case True
    then show ?thesis by (simp add: shape ends_with_slash_def)
  next
    case False
    then have "ends_with_slash out = ends_with_slash (join_with_slash segs)"
      unfolding shape by (simp only: ends_with_slash_append if_False)
    then show ?thesis using tidy by simp
  qed
  show ?thesis using dots dbl st en by blast
qed

text \<open>
  Where \<open>NormalizePath\<close> yields a result, normalizing the result yields it again.
\<close>

lemma NormalizePath_idempotent_bounded:
  assumes "NormalizePath p = Some out"
  shows "NormalizePath out = Some out"
proof -
  define segs where "segs = retained (path_segments (c_str p))"
  have pl: "\<forall>s \<in> set segs. plain s"
    unfolding segs_def using retained_plain by blast
  have bound: "length (c_str p) \<le> INT_MAX"
    using assms by (simp add: NormalizePath_Some)
  have spec: "out = NormalizePath_spec (c_str p)"
    using assms by (simp add: NormalizePath_Some)
  have shape: "out = (if starts_with_slash p then ''/'' else []) @ join_with_slash segs"
    using assms NormalizePath_shape [OF bound] by (simp add: segs_def)
  note tidy = join_with_slash_tidy [OF pl]
  have nul: "NUL \<notin> set out"
    using tidy NUL_not_slash by (simp add: shape)
  then have c: "c_str out = out" by (rule c_str_id)
  have "length out \<le> length (c_str p)"
    unfolding spec by (rule spec_length)
  then have bound': "length (c_str out) \<le> INT_MAX"
    using bound c by simp
  have "path_segments out = segs"
    using path_segments_join [OF pl] by (simp add: shape path_segments_slash)
  then have r: "retained (path_segments (c_str out)) = segs"
    using pl c by (simp add: retained_plain_id)
  have st: "starts_with_slash out \<longleftrightarrow> starts_with_slash p"
    using tidy by (simp add: shape) (simp add: starts_with_slash_def)
  have "NormalizePath out =
      Some ((if starts_with_slash out then ''/'' else [])
        @ join_with_slash (retained (path_segments (c_str out))))"
    using bound' by (rule NormalizePath_shape)
  also have "\<dots> = Some ((if starts_with_slash p then ''/'' else []) @ join_with_slash segs)"
    by (simp only: r st)
  also have "\<dots> = Some out"
    by (simp only: shape [symmetric])
  finally show ?thesis .
qed

text \<open>Evaluation on short paths.\<close>

lemmas NormalizePath_eval =
  NormalizePath_def NormalizePath_scan.simps char_at_def NUL_def substr_def end_segment_def
  INT_MAX_def

lemma NormalizePath_examples:
  "NormalizePath [] = Some []"
  "NormalizePath ''/'' = Some ''/''"
  "NormalizePath ''/..'' = Some ''/''"
  "NormalizePath ''a/./b/../c'' = Some ''a/c''"
  "NormalizePath ''a/../../b'' = Some ''b''"
  "NormalizePath ''//a/.//b/../c/'' = Some ''/a/c''"
  "NormalizePath ''.'' = Some []"
  "NormalizePath ''a/..'' = Some []"
  by (simp_all add: NormalizePath_eval)

text \<open>
  Claim C1 says that every input has a result in normal form. The counter of the scanning
  loop is an \<^verbatim>\<open>int\<close>: on a path of \<open>2^31\<close> characters it is incremented at \<open>INT_MAX\<close>
  before the terminator is reached, which is undefined behaviour, and \<open>NormalizePath\<close> has
  no result at all.
\<close>

theorem NormalizePath_long_path:
  "NormalizePath (replicate 2147483648 CHR ''a'') = None"
proof -
  have "NUL \<notin> set (replicate 2147483648 CHR ''a'')"
    by (simp add: NUL_def)
  then have "c_str (replicate 2147483648 CHR ''a'') = replicate 2147483648 CHR ''a''"
    by (rule c_str_id)
  then have "INT_MAX < length (c_str (replicate 2147483648 CHR ''a''))"
    by (simp add: INT_MAX_def)
  then show ?thesis by (rule NormalizePath_overflow)
qed

text \<open>
  Claim C3 says that normalizing twice is normalizing once, for all inputs. On the path of
  \<open>2^31\<close> slashes, whose normal form is the single slash, the first call already runs
  into the signed overflow of the counter: there is no result for the equation to hold of.
\<close>

theorem NormalizePath_long_path_twice:
  "\<not> (\<exists>q. NormalizePath (replicate 2147483648 CHR ''/'') = Some q \<and> NormalizePath q = Some q)"
proof -
  have "NUL \<notin> set (replicate 2147483648 CHR ''/'')"
    by (simp add: NUL_def)
  then have "c_str (replicate 2147483648 CHR ''/'') = replicate 2147483648 CHR ''/''"
    by (rule c_str_id)
  then have "INT_MAX < length (c_str (replicate 2147483648 CHR ''/''))"
    by (simp add: INT_MAX_def)
  then have "NormalizePath (replicate 2147483648 CHR ''/'') = None"
    by (rule NormalizePath_overflow)
  then show ?thesis by simp
qed

text \<open>
  Claim C2 as stated fails on a path with an embedded \<^verbatim>\<open>'\0'\<close>. The path \<^verbatim>\<open>x\0y/..\<close> has
  the segments \<^verbatim>\<open>x\0y\<close> and \<^verbatim>\<open>..\<close>; pushing the first and popping it for the second leaves
  nothing, so the result would be empty. The scanning loop stops at the \<^verbatim>\<open>'\0'\<close>: it
  pushes \<^verbatim>\<open>x\<close>, never sees the \<^verbatim>\<open>..\<close>, and the result is \<^verbatim>\<open>x\<close>.
\<close>

theorem NormalizePath_whole_path_counterexample:
  "path_segments [CHR ''x'', CHR 0x00, CHR ''y'', CHR ''/'', CHR ''.'', CHR ''.'']
     = [[CHR ''x'', CHR 0x00, CHR ''y''], ''..''] \<and>
   NormalizePath_spec [CHR ''x'', CHR 0x00, CHR ''y'', CHR ''/'', CHR ''.'', CHR ''.''] = [] \<and>
   NormalizePath [CHR ''x'', CHR 0x00, CHR ''y'', CHR ''/'', CHR ''.'', CHR ''.''] = Some ''x''"
proof -
  have "path_segments [CHR ''x'', CHR 0x00, CHR ''y'', CHR ''/'', CHR ''.'', CHR ''.'']
     = [[CHR ''x'', CHR 0x00, CHR ''y''], ''..'']"
    by code_simp
  moreover have
    "NormalizePath_spec [CHR ''x'', CHR 0x00, CHR ''y'', CHR ''/'', CHR ''.'', CHR ''.''] = []"
    by code_simp
  moreover have
    "NormalizePath [CHR ''x'', CHR 0x00, CHR ''y'', CHR ''/'', CHR ''.'', CHR ''.''] = Some ''x''"
    by (simp add: NormalizePath_eval)
  ultimately show ?thesis by blast
qed

text \<open>
  Claim C2, amended. For a path with fewer than \<open>2^31\<close> characters before its first
  \<^verbatim>\<open>'\0'\<close>, \<open>NormalizePath\<close> processes the segments of the content up to that \<^verbatim>\<open>'\0'\<close>
  from left to right: \<^verbatim>\<open>..\<close> pops the last retained segment when there is one and is
  dropped otherwise, \<^verbatim>\<open>.\<close> is dropped, any other segment is pushed; the result is the
  retained segments joined as the specification says. For a path without \<^verbatim>\<open>'\0'\<close> these
  are all its segments. Consequently \<^verbatim>\<open>/..\<close> gives \<^verbatim>\<open>/\<close> and \<^verbatim>\<open>a/../../b\<close> gives \<^verbatim>\<open>b\<close>.
\<close>

theorem NormalizePath_stack_discipline:
  "(length (c_str p) \<le> INT_MAX \<longrightarrow> NormalizePath p = Some (NormalizePath_spec (c_str p))) \<and>
   (NUL \<notin> set p \<and> length p \<le> INT_MAX \<longrightarrow> NormalizePath p = Some (NormalizePath_spec p)) \<and>
   NormalizePath ''/..'' = Some ''/'' \<and>
   NormalizePath ''a/../../b'' = Some ''b''"
proof -
  have "NormalizePath ''/..'' = Some ''/''" by (simp add: NormalizePath_eval)
  moreover have "NormalizePath ''a/../../b'' = Some ''b''" by (simp add: NormalizePath_eval)
  moreover have "NormalizePath p = Some (NormalizePath_spec p)"
    if "NUL \<notin> set p" "length p \<le> INT_MAX"
    using that NormalizePath_refines [of p] by (simp add: c_str_id)
  ultimately show ?thesis using NormalizePath_refines [of p] by blast
qed

text \<open>
  The amended claim C2 at \<^verbatim>\<open>a/../../b\<close>, a path of eight characters without \<^verbatim>\<open>'\0'\<close>.
\<close>

theorem NormalizePath_stack_discipline_witness:
  "length (c_str ''a/../../b'') \<le> INT_MAX \<and>
   NUL \<notin> set ''a/../../b'' \<and> length ''a/../../b'' \<le> INT_MAX \<and>
   NormalizePath ''a/../../b'' = Some (NormalizePath_spec (c_str ''a/../../b'')) \<and>
   NormalizePath ''a/../../b'' = Some (NormalizePath_spec ''a/../../b'') \<and>
   NormalizePath_spec ''a/../../b'' = ''b''"
proof -
  have h: "NUL \<notin> set ''a/../../b''" "length ''a/../../b'' \<le> INT_MAX"
    by (simp_all add: NUL_def INT_MAX_def)
  have c: "c_str ''a/../../b'' = ''a/../../b''"
    using h(1) by (rule c_str_id)
  have s: "NormalizePath_spec ''a/../../b'' = ''b''" by code_simp
  from h c NormalizePath_stack_discipline [of "''a/../../b''"]
  have "NormalizePath ''a/../../b'' = Some (NormalizePath_spec ''a/../../b'')" by blast
  with h c s show ?thesis by simp
qed

text \<open>
  Claim C10 as stated fails on a path with an embedded \<^verbatim>\<open>'\0'\<close>. The path \<^verbatim>\<open>a\0/..\<close> is
  non-empty, does not begin with a slash, and its two segments \<^verbatim>\<open>a\0\<close> and \<^verbatim>\<open>..\<close> cancel;
  the result is \<^verbatim>\<open>a\<close>, not the empty string, since the scanning loop stops at the
  \<^verbatim>\<open>'\0'\<close>.
\<close>

theorem NormalizePath_cancel_counterexample:
  "[CHR ''a'', CHR 0x00, CHR ''/'', CHR ''.'', CHR ''.''] \<noteq> [] \<and>
   \<not> starts_with_slash [CHR ''a'', CHR 0x00, CHR ''/'', CHR ''.'', CHR ''.''] \<and>
   retained (path_segments [CHR ''a'', CHR 0x00, CHR ''/'', CHR ''.'', CHR ''.'']) = [] \<and>
   NormalizePath [CHR ''a'', CHR 0x00, CHR ''/'', CHR ''.'', CHR ''.''] = Some ''a''"
proof -
  have "retained (path_segments [CHR ''a'', CHR 0x00, CHR ''/'', CHR ''.'', CHR ''.'']) = []"
    by code_simp
  moreover have
    "NormalizePath [CHR ''a'', CHR 0x00, CHR ''/'', CHR ''.'', CHR ''.''] = Some ''a''"
    by (simp add: NormalizePath_eval)
  ultimately show ?thesis by (simp add: starts_with_slash_def)
qed

text \<open>
  Claim C10, amended. For every non-empty input that does not begin with a slash, has
  fewer than \<open>2^31\<close> characters before its first \<^verbatim>\<open>'\0'\<close>, and whose segments, taken from
  the content up to that \<^verbatim>\<open>'\0'\<close>, all cancel (nothing is retained), the result is the
  empty string. \<^verbatim>\<open>.\<close> and \<^verbatim>\<open>a/..\<close> are such inputs, so an empty result does not imply an
  empty input.
\<close>

theorem NormalizePath_cancel:
  "(p \<noteq> [] \<and> \<not> starts_with_slash p \<and> length (c_str p) \<le> INT_MAX \<and>
    retained (path_segments (c_str p)) = []
      \<longrightarrow> NormalizePath p = Some []) \<and>
   NormalizePath ''.'' = Some [] \<and>
   NormalizePath ''a/..'' = Some [] \<and>
   \<not> (\<forall>q. NormalizePath q = Some [] \<longrightarrow> q = [])"
proof -
  have d: "NormalizePath ''.'' = Some []" by (simp add: NormalizePath_eval)
  have "NormalizePath ''a/..'' = Some []" by (simp add: NormalizePath_eval)
  moreover have "\<not> (\<forall>q. NormalizePath q = Some [] \<longrightarrow> q = [])"
  proof
    assume "\<forall>q. NormalizePath q = Some [] \<longrightarrow> q = []"
    then have "''.'' = []" using d by blast
    then show False by simp
  qed
  ultimately show ?thesis using d by (simp add: NormalizePath_shape)
qed

text \<open>The amended claim C10 at \<^verbatim>\<open>./b/..\<close>.\<close>

theorem NormalizePath_cancel_witness:
  "''./b/..'' \<noteq> [] \<and> \<not> starts_with_slash ''./b/..'' \<and>
   length (c_str ''./b/..'') \<le> INT_MAX \<and>
   retained (path_segments (c_str ''./b/..'')) = [] \<and> NormalizePath ''./b/..'' = Some []"
proof -
  have n: "NUL \<notin> set ''./b/..''" by (simp add: NUL_def)
  have c: "c_str ''./b/..'' = ''./b/..''" using n by (rule c_str_id)
  have l: "length (c_str ''./b/..'') \<le> INT_MAX" by (simp add: c INT_MAX_def)
  have r: "retained (path_segments (c_str ''./b/..'')) = []"
    unfolding c by code_simp
  have h: "''./b/..'' \<noteq> [] \<and> \<not> starts_with_slash ''./b/..''"
    by (simp add: starts_with_slash_def)
  show ?thesis using h l r NormalizePath_cancel [of "''./b/..''"] by blast
qed

section \<open>Results for reading\<close>

text \<open>One iteration of the loop, by the result of the primitive.\<close>

lemma request_pos: "0 < request m"
  by (simp add: request_def)

lemma request_le: "0 < m \<Longrightarrow> request m \<le> m"
  by (simp add: request_def)

lemma length_appended: "length (appended buf r) = nat r"
  by (simp add: appended_def)




lemma loop_exhausted:
  "rf s b (request m) = (r, b', e, s') \<Longrightarrow> 0 < r \<Longrightarrow> r \<le> 4096 \<Longrightarrow> 0 < m \<Longrightarrow> m \<le> r \<Longrightarrow>
   ReadFrom_loop rf s b c m = Some (Returned True, c @ appended b' r, s')"
  by (subst ReadFrom_loop.simps) simp

lemma loop_continue:
  "rf s b (request m) = (r, b', e, s') \<Longrightarrow> 0 < r \<Longrightarrow> r \<le> 4096 \<Longrightarrow> 0 < m \<Longrightarrow> r < m \<Longrightarrow>
   ReadFrom_loop rf s b c m = ReadFrom_loop rf s' b' (c @ appended b' r) (m - r)"
  by (subst ReadFrom_loop.simps) simp

lemma loop_unbounded:
  "rf s b (request m) = (r, b', e, s') \<Longrightarrow> 0 < r \<Longrightarrow> r \<le> 4096 \<Longrightarrow> m \<le> 0 \<Longrightarrow>
   ReadFrom_loop rf s b c m = ReadFrom_loop rf s' b' (c @ appended b' r) m"
  by (subst ReadFrom_loop.simps) simp

lemma loop_fault:
  "rf s b (request m) = (r, b', e, s') \<Longrightarrow> r < - 1 \<or> 4096 < r \<Longrightarrow>
   ReadFrom_loop rf s b c m = Some (Fault, c, s')"
  by (subst ReadFrom_loop.simps) auto




text \<open>
  The loop ends for a primitive that always delivers at least one and at most the
  requested number of bytes: with a positive \<open>max_size\<close> it returns true after exactly
  \<open>max_size\<close> characters.
\<close>

lemma request_le_buf: "request m \<le> 4096"
  by (simp add: request_def)

lemma loop_productive:
  assumes "\<forall>s b n. 0 < n \<longrightarrow> 0 < fst (rf s b n) \<and> fst (rf s b n) \<le> n"
  shows "0 < m \<Longrightarrow> \<exists>out s'. ReadFrom_loop rf s b c m = Some (Returned True, out, s') \<and>
           int (length out) = int (length c) + m"
proof (induction "nat m" arbitrary: m s b c rule: less_induct)
  case less
  obtain r b' e s' where call: "rf s b (request m) = (r, b', e, s')"
    by (cases "rf s b (request m)") auto
  have "0 < fst (rf s b (request m)) \<and> fst (rf s b (request m)) \<le> request m"
    using assms request_pos [of m] by blast
  then have r: "0 < r" "r \<le> m" "r \<le> 4096"
    using call request_le [OF less.prems] request_le_buf [of m] by simp_all
  show ?case
  proof (cases "r < m")
    case True
    have "\<exists>out s''. ReadFrom_loop rf s' b' (c @ appended b' r) (m - r)
            = Some (Returned True, out, s'') \<and>
          int (length out) = int (length (c @ appended b' r)) + (m - r)"
      using True r by (intro less.hyps) simp_all
    then show ?thesis
      using loop_continue [of rf s b m r b' e s' c] call True less.prems r
      by (simp add: length_appended)
  next
    case False
    then show ?thesis
      using loop_exhausted [of rf s b m r b' e s' c] call less.prems r
      by (simp add: length_appended)
  qed
qed







section \<open>Results for the directory walk\<close>

lemma consume_Nil: "consume_entries ls [] files = Some files"
  by (subst consume_entries.simps) simp

lemma consume_Cons:
  "consume_entries ls ((path, is_directory) # rest) files =
     Option.bind (Consume ls path is_directory files) (consume_entries ls rest)"
  by (subst consume_entries.simps) (simp add: Consume_def Walk_def)

lemma consume_children:
  assumes "\<And>c files rest. c \<in> set cs \<Longrightarrow>
      consume_entries ls (listing c # rest) files = consume_entries ls rest (files @ files_under c)"
  shows "consume_entries ls (map listing cs) files = Some (files @ concat (map files_under cs))"
  using assms
proof (induction cs arbitrary: files)
  case Nil
  then show ?case by (simp add: consume_Nil)
next
  case (Cons c cs)
  have "consume_entries ls (map listing (c # cs)) files =
        consume_entries ls (map listing cs) (files @ files_under c)"
    using Cons.prems [of c "map listing cs" files] by simp
  also have "\<dots> = Some ((files @ files_under c) @ concat (map files_under cs))"
    using Cons.prems by (intro Cons.IH) simp
  finally show ?case by simp
qed

lemma consume_node:
  "presents ls n \<Longrightarrow>
   consume_entries ls (listing n # rest) files = consume_entries ls rest (files @ files_under n)"
proof (induction n arbitrary: rest files)
  case (File path)
  show ?case by (simp add: consume_Cons Consume_def)
next
  case (Directory path children)
  have "consume_entries ls (map listing children) files =
        Some (files @ concat (map files_under children))"
    using Directory by (intro consume_children) simp
  then show ?case
    using Directory.prems by (simp add: consume_Cons Consume_def Walk_def)
qed

lemma files_in_entries: "set (files_under n) \<subseteq> set (entries_under n)"
  by (induction n) auto

lemma directories_in_entries: "set (directories_under n) \<subseteq> set (entries_under n)"
  by (induction n) auto

lemma mset_entries_under:
  "mset (entries_under n) = mset (files_under n) + mset (directories_under n)"
proof (induction n)
  case (File path)
  show ?case by simp
next
  case (Directory path children)
  have "(\<Sum>c\<leftarrow>children. mset (entries_under c)) =
        (\<Sum>c\<leftarrow>children. mset (files_under c) + mset (directories_under c))"
    using Directory by (intro arg_cong [where f = sum_list] map_cong) simp_all
  then show ?case by (simp add: mset_concat comp_def sum_list_addf)
qed

lemma files_apart:
  assumes "distinct (entries_under n)"
  shows "set (files_under n) \<inter> set (directories_under n) = {}"
proof -
  have "mset (files_under n @ directories_under n) = mset (entries_under n)"
    by (simp add: mset_entries_under)
  then have "distinct (files_under n @ directories_under n)"
    using assms mset_eq_imp_distinct_iff by blast
  then show ?thesis by simp
qed

text \<open>
  Claim C4. For every directory tree that the enumeration primitive presents,
  \<open>GetAllFilesUnder\<close> on the root returns, and the vector then holds the old elements
  followed by exactly the non-directory entries of the tree in depth-first order along
  the enumeration order. Where the paths of the tree are distinct, no appended path is the
  path of a directory.
\<close>

theorem GetAllFilesUnder_collects:
  assumes "presents ForEachDirectoryEntry (Directory path children)"
  shows "GetAllFilesUnder ForEachDirectoryEntry path result
           = Some (result @ files_under (Directory path children)) \<and>
         (distinct (entries_under (Directory path children)) \<longrightarrow>
            (\<forall>f \<in> set (files_under (Directory path children)).
               f \<notin> set (directories_under (Directory path children))))"
proof -
  have "consume_entries ForEachDirectoryEntry (map listing children) result
          = Some (result @ concat (map files_under children))"
    using assms by (intro consume_children consume_node) simp
  then have "GetAllFilesUnder ForEachDirectoryEntry path result
           = Some (result @ files_under (Directory path children))"
    using assms by (simp add: GetAllFilesUnder_def GetAllFilesUnder_impl_def Walk_def)
  then show ?thesis
    using files_apart [of "Directory path children"] by blast
qed

text \<open>
  Claim C4 on the tree with the directories \<^verbatim>\<open>a\<close>, \<^verbatim>\<open>a/b\<close> and the files \<^verbatim>\<open>a/f1\<close>,
  \<^verbatim>\<open>a/b/f2\<close>, \<^verbatim>\<open>a/f3\<close>.
\<close>

theorem GetAllFilesUnder_collects_witness:
  "presents example_lister
     (Directory ''a'' [File ''a/f1'', Directory ''a/b'' [File ''a/b/f2''], File ''a/f3'']) \<and>
   GetAllFilesUnder example_lister ''a'' [''old''] = Some [''old'', ''a/f1'', ''a/b/f2'', ''a/f3''] \<and>
   distinct (entries_under
     (Directory ''a'' [File ''a/f1'', Directory ''a/b'' [File ''a/b/f2''], File ''a/f3''])) \<and>
   ''a'' \<notin> set [''a/f1'', ''a/b/f2'', ''a/f3''] \<and> ''a/b'' \<notin> set [''a/f1'', ''a/b/f2'', ''a/f3'']"
proof -
  have h: "presents example_lister
     (Directory ''a'' [File ''a/f1'', Directory ''a/b'' [File ''a/b/f2''], File ''a/f3''])"
    by (simp add: example_lister_def)
  have d: "distinct (entries_under
     (Directory ''a'' [File ''a/f1'', Directory ''a/b'' [File ''a/b/f2''], File ''a/f3'']))"
    by simp
  show ?thesis
    using h d GetAllFilesUnder_collects [OF h, of "[''old'']"] by simp
qed

end
